theory Spec2Isabelle
  imports Main
begin

section \<open>Python lists and exceptions\<close>

text \<open>
  The only exception the two modules can raise is Python's \<open>IndexError\<close>: the explicit
  \<open>raise IndexError(...)\<close> of the bounds checks, and the one a list subscript raises by
  itself when the index is outside \<open>[-len, len)\<close>.
\<close>

datatype error = IndexError

text \<open>\<open>xs[i]\<close>: a negative index counts from the end; out of range raises.\<close>

definition getitem :: "'b list \<Rightarrow> int \<Rightarrow> error + 'b" where
  "getitem xs i =
     (if 0 \<le> i \<and> i < int (length xs) then Inr (xs ! nat i)
      else if - int (length xs) \<le> i \<and> i < 0 then Inr (xs ! nat (i + int (length xs)))
      else Inl IndexError)"

text \<open>\<open>xs[i] = v\<close>, with the same index rules.\<close>

definition setitem :: "'b list \<Rightarrow> int \<Rightarrow> 'b \<Rightarrow> error + 'b list" where
  "setitem xs i v =
     (if 0 \<le> i \<and> i < int (length xs) then Inr (xs[nat i := v])
      else if - int (length xs) \<le> i \<and> i < 0 then Inr (xs[nat (i + int (length xs)) := v])
      else Inl IndexError)"

text \<open>\<open>range(a, b)\<close> as the list of its values; \<open>range(n)\<close> is \<open>py_range 0 n\<close>.\<close>

definition py_range :: "int \<Rightarrow> int \<Rightarrow> int list" where
  "py_range a b = [a..b - 1]"

text \<open>\<open>[x] * n\<close>: the empty list when \<open>n\<close> is not positive.\<close>

definition py_repeat :: "'b \<Rightarrow> int \<Rightarrow> 'b list" where
  "py_repeat x n = replicate (nat n) x"

section \<open>The dynamic array\<close>

text \<open>
  The object's three attributes. A slot holds any Python value, \<open>None\<close> included: a slot is
  an \<open>'a option\<close> whose \<open>None\<close> is Python's \<open>None\<close> (the placeholder of an unused slot, and
  also a value a caller may store).
\<close>

record 'a DynamicArray =
  capacity :: int
  size_da :: int
  data :: "'a option list"

text \<open>
  A method returns its outcome (the value returned or the exception raised) together with
  the object as the call leaves it, so that what a raising call has already written stays
  visible.
\<close>

type_synonym ('r, 'a) outcome = "(error + 'r) \<times> 'a DynamicArray"

text \<open>\<open>__init__\<close>\<close>

definition init_da :: "'a DynamicArray" where
  "init_da = \<lparr>capacity = 2, size_da = 0, data = py_repeat None 2\<rparr>"

text \<open>The loop of \<open>_resize\<close>: \<open>for i in range(self.size): new_data[i] = self.data[i]\<close>.\<close>

fun resize_copy :: "int list \<Rightarrow> 'b list \<Rightarrow> 'b list \<Rightarrow> error + 'b list" where
  "resize_copy [] old_data new_data = Inr new_data"
| "resize_copy (i # rest) old_data new_data =
     (case getitem old_data i of
        Inl e \<Rightarrow> Inl e
      | Inr v \<Rightarrow>
          (case setitem new_data i v of
             Inl e \<Rightarrow> Inl e
           | Inr new_data' \<Rightarrow> resize_copy rest old_data new_data'))"

text \<open>
  \<open>_resize\<close>. The capacity is assigned before the copy, the buffer after it, so a copy
  that raised would leave the doubled capacity with the old buffer.
\<close>

definition resize :: "'a DynamicArray \<Rightarrow> (unit, 'a) outcome" where
  "resize s =
     (let s1 = s\<lparr>capacity := capacity s * 2\<rparr>;
          new_data = py_repeat None (capacity s1)
      in case resize_copy (py_range 0 (size_da s1)) (data s1) new_data of
           Inl e \<Rightarrow> (Inl e, s1)
         | Inr new_data' \<Rightarrow> (Inr (), s1\<lparr>data := new_data'\<rparr>))"

text \<open>The shared prefix of \<open>append\<close> and \<open>insert\<close>: \<open>if self.size == self.capacity: self._resize()\<close>.\<close>

definition resize_if_full :: "'a DynamicArray \<Rightarrow> (unit, 'a) outcome" where
  "resize_if_full s = (if size_da s = capacity s then resize s else (Inr (), s))"

text \<open>\<open>append\<close>\<close>

definition append_da :: "'a option \<Rightarrow> 'a DynamicArray \<Rightarrow> (unit, 'a) outcome" where
  "append_da element s =
     (case resize_if_full s of
        (Inl e, s1) \<Rightarrow> (Inl e, s1)
      | (Inr _, s1) \<Rightarrow>
          (case setitem (data s1) (size_da s1) element of
             Inl e \<Rightarrow> (Inl e, s1)
           | Inr d \<Rightarrow> (Inr (), s1\<lparr>data := d, size_da := size_da s1 + 1\<rparr>)))"

text \<open>
  The loop of \<open>insert\<close>, on the buffer it mutates in place:
  \<open>while i >= index: self.data[i + 1] = self.data[i]; i -= 1\<close>.
\<close>

function shift_right :: "int \<Rightarrow> int \<Rightarrow> 'b list \<Rightarrow> (error + unit) \<times> 'b list" where
  "shift_right i index d =
     (if i \<ge> index then
        (case getitem d i of
           Inl e \<Rightarrow> (Inl e, d)
         | Inr v \<Rightarrow>
             (case setitem d (i + 1) v of
                Inl e \<Rightarrow> (Inl e, d)
              | Inr d' \<Rightarrow> shift_right (i - 1) index d'))
      else (Inr (), d))"
  by pat_completeness auto
termination
  by (relation "measure (\<lambda>(i, index, d). nat (i - index + 1))") auto

declare shift_right.simps [simp del]

text \<open>\<open>insert\<close>\<close>

definition insert_da :: "int \<Rightarrow> 'a option \<Rightarrow> 'a DynamicArray \<Rightarrow> (unit, 'a) outcome" where
  "insert_da index element s =
     (if index < 0 \<or> index > size_da s then (Inl IndexError, s)
      else
        (case resize_if_full s of
           (Inl e, s1) \<Rightarrow> (Inl e, s1)
         | (Inr _, s1) \<Rightarrow>
             (case shift_right (size_da s1 - 1) index (data s1) of
                (Inl e, d) \<Rightarrow> (Inl e, s1\<lparr>data := d\<rparr>)
              | (Inr _, d) \<Rightarrow>
                  (case setitem d index element of
                     Inl e \<Rightarrow> (Inl e, s1\<lparr>data := d\<rparr>)
                   | Inr d' \<Rightarrow> (Inr (), s1\<lparr>data := d', size_da := size_da s1 + 1\<rparr>)))))"

text \<open>
  The loop of \<open>delete\<close>, on the buffer it mutates in place:
  \<open>for i in range(index, self.size - 1): self.data[i] = self.data[i + 1]\<close>.
\<close>

fun shift_left :: "int list \<Rightarrow> 'b list \<Rightarrow> (error + unit) \<times> 'b list" where
  "shift_left [] d = (Inr (), d)"
| "shift_left (i # rest) d =
     (case getitem d (i + 1) of
        Inl e \<Rightarrow> (Inl e, d)
      | Inr v \<Rightarrow>
          (case setitem d i v of
             Inl e \<Rightarrow> (Inl e, d)
           | Inr d' \<Rightarrow> shift_left rest d'))"

text \<open>\<open>delete\<close>\<close>

definition delete :: "int \<Rightarrow> 'a DynamicArray \<Rightarrow> ('a option, 'a) outcome" where
  "delete index s =
     (if index < 0 \<or> index \<ge> size_da s then (Inl IndexError, s)
      else
        (case getitem (data s) index of
           Inl e \<Rightarrow> (Inl e, s)
         | Inr deleted_element \<Rightarrow>
             (case shift_left (py_range index (size_da s - 1)) (data s) of
                (Inl e, d) \<Rightarrow> (Inl e, s\<lparr>data := d\<rparr>)
              | (Inr _, d) \<Rightarrow>
                  (let s1 = s\<lparr>data := d, size_da := size_da s - 1\<rparr>
                   in case setitem (data s1) (size_da s1) None of
                        Inl e \<Rightarrow> (Inl e, s1)
                      | Inr d' \<Rightarrow> (Inr deleted_element, s1\<lparr>data := d'\<rparr>)))))"

text \<open>\<open>get\<close> assigns nothing: it has an outcome only.\<close>

definition get :: "int \<Rightarrow> 'a DynamicArray \<Rightarrow> error + 'a option" where
  "get index s =
     (if index < 0 \<or> index \<ge> size_da s then Inl IndexError
      else getitem (data s) index)"

subsection \<open>Sequences of public operations\<close>

text \<open>
  A caller may catch the exception and go on with the same object (the module's own test
  does), so a sequence of calls threads the object through every call, raising or not.
\<close>

datatype 'a op = Append "'a option" | Insert int "'a option" | Delete int | Get int

fun step :: "'a op \<Rightarrow> 'a DynamicArray \<Rightarrow> 'a DynamicArray" where
  "step (Append x) s = snd (append_da x s)"
| "step (Insert i x) s = snd (insert_da i x s)"
| "step (Delete i) s = snd (delete i s)"
| "step (Get i) s = s"

fun run :: "'a op list \<Rightarrow> 'a DynamicArray \<Rightarrow> 'a DynamicArray" where
  "run [] s = s"
| "run (c # cs) s = run cs (step c s)"

text \<open>The logical sequence: the slots \<open>[0, size)\<close>.\<close>

definition live :: "'a DynamicArray \<Rightarrow> 'a option list" where
  "live s = take (nat (size_da s)) (data s)"

text \<open>
  The representation every method relies on: the buffer has \<open>capacity\<close> slots, of which the
  first \<open>size\<close> are in use, and there is at least one slot (so that doubling makes room).
  The constructor establishes it and every public call keeps it (\<open>init_wf\<close>, \<open>run_wf\<close>
  below), so it holds of every array a caller can hold; an object whose attributes were
  assigned from outside may break it, and then a list subscript itself can raise.
\<close>

definition da_wf :: "'a DynamicArray \<Rightarrow> bool" where
  "da_wf s \<longleftrightarrow>
     0 \<le> size_da s \<and> size_da s \<le> capacity s \<and> 1 \<le> capacity s \<and>
     int (length (data s)) = capacity s"

section \<open>String utilities\<close>

text \<open>
  \<open>str.isalnum\<close> and \<open>str.lower\<close> are builtins of Python, not code of this repository:
  \<open>is_palindrome\<close> takes them as parameters, over any type \<open>'c\<close> of characters and any
  type \<open>'l\<close> of what \<open>lower\<close> returns. A subscript of \<open>s\<close> is the same subscript as a
  list's.
\<close>

text \<open>
  The first inner loop of \<open>is_palindrome\<close>:
  \<open>while left < right and not s[left].isalnum(): left += 1\<close>.
\<close>

function skip_left :: "('c \<Rightarrow> bool) \<Rightarrow> 'c list \<Rightarrow> int \<Rightarrow> int \<Rightarrow> error + int" where
  "skip_left isalnum s left right =
     (if left < right then
        (case getitem s left of
           Inl e \<Rightarrow> Inl e
         | Inr c \<Rightarrow> if \<not> isalnum c then skip_left isalnum s (left + 1) right else Inr left)
      else Inr left)"
  by pat_completeness auto
termination
  by (relation "measure (\<lambda>(isalnum, s, left, right). nat (right - left))") auto

declare skip_left.simps [simp del]

text \<open>
  The second inner loop:
  \<open>while left < right and not s[right].isalnum(): right -= 1\<close>.
\<close>

function skip_right :: "('c \<Rightarrow> bool) \<Rightarrow> 'c list \<Rightarrow> int \<Rightarrow> int \<Rightarrow> error + int" where
  "skip_right isalnum s left right =
     (if left < right then
        (case getitem s right of
           Inl e \<Rightarrow> Inl e
         | Inr c \<Rightarrow> if \<not> isalnum c then skip_right isalnum s left (right - 1) else Inr right)
      else Inr right)"
  by pat_completeness auto
termination
  by (relation "measure (\<lambda>(isalnum, s, left, right). nat (right - left))") auto

declare skip_right.simps [simp del]

text \<open>
  The outer loop, from the two pointers it is entered with. It ends because the inner loops
  never move \<open>left\<close> down nor \<open>right\<close> up.
\<close>

function palindrome_loop ::
  "('c \<Rightarrow> bool) \<Rightarrow> ('c \<Rightarrow> 'l) \<Rightarrow> 'c list \<Rightarrow> int \<Rightarrow> int \<Rightarrow> error + bool" where
  "palindrome_loop isalnum lower s left right =
     (if left < right then
        (case skip_left isalnum s left right of
           Inl e \<Rightarrow> Inl e
         | Inr left' \<Rightarrow>
             (case skip_right isalnum s left' right of
                Inl e \<Rightarrow> Inl e
              | Inr right' \<Rightarrow>
                  (case getitem s left' of
                     Inl e \<Rightarrow> Inl e
                   | Inr a \<Rightarrow>
                       (case getitem s right' of
                          Inl e \<Rightarrow> Inl e
                        | Inr b \<Rightarrow>
                            if lower a \<noteq> lower b then Inr False
                            else palindrome_loop isalnum lower s (left' + 1) (right' - 1)))))
      else Inr True)"
  by pat_completeness auto
termination
proof (relation "measure (\<lambda>(isalnum, lower, s, left, right). nat (right - left))")
  show "wf (measure (\<lambda>(isalnum :: 'c \<Rightarrow> bool, lower :: 'c \<Rightarrow> 'l, s :: 'c list, left, right).
                nat (right - left)))"
    by simp
next
  fix isalnum :: "'c \<Rightarrow> bool" and lower :: "'c \<Rightarrow> 'l" and s :: "'c list"
    and left right left' right' :: int and a b :: 'c
  assume lr: "left < right"
    and sl: "skip_left isalnum s left right = Inr left'"
    and sr: "skip_right isalnum s left' right = Inr right'"
  have "l \<le> l'" if "skip_left isalnum s l r = Inr l'" for l r l'
    using that
  proof (induction isalnum s l r rule: skip_left.induct)
    case (1 isalnum s left right)
    then show ?case
      by (subst (asm) (2) skip_left.simps) (fastforce split: if_splits sum.splits)
  qed
  from this [OF sl] have a: "left \<le> left'" .
  have "r' \<le> r" if "skip_right isalnum s l r = Inr r'" for l r r'
    using that
  proof (induction isalnum s l r rule: skip_right.induct)
    case (1 isalnum s left right)
    then show ?case
      by (subst (asm) (2) skip_right.simps) (fastforce split: if_splits sum.splits)
  qed
  from this [OF sr] have b: "right' \<le> right" .
  from lr a b
  show "((isalnum, lower, s, left' + 1, right' - 1), (isalnum, lower, s, left, right))
        \<in> measure (\<lambda>(isalnum, lower, s, left, right). nat (right - left))"
    by simp
qed

declare palindrome_loop.simps [simp del]

text \<open>\<open>is_palindrome\<close>: \<open>left = 0\<close>, \<open>right = len(s) - 1\<close>, then the loop.\<close>

definition is_palindrome :: "('c \<Rightarrow> bool) \<Rightarrow> ('c \<Rightarrow> 'l) \<Rightarrow> 'c list \<Rightarrow> error + bool" where
  "is_palindrome isalnum lower s = palindrome_loop isalnum lower s 0 (int (length s) - 1)"

text \<open>
  \<open>str.isalnum\<close> and \<open>str.lower\<close> on ASCII characters (code points below 128), for the
  strings of the scenarios, which hold no other character: a character is alphanumeric when
  it is a digit or a letter of \<open>A-Z\<close>, \<open>a-z\<close>, and lowering adds 32 to a letter of \<open>A-Z\<close>.
  The general statements below do not use them.
\<close>

definition isalnum_ascii :: "char \<Rightarrow> bool" where
  "isalnum_ascii c =
     (let n = (of_char c :: nat)
      in (48 \<le> n \<and> n \<le> 57) \<or> (65 \<le> n \<and> n \<le> 90) \<or> (97 \<le> n \<and> n \<le> 122))"

definition lower_ascii :: "char \<Rightarrow> char" where
  "lower_ascii c =
     (let n = (of_char c :: nat)
      in if 65 \<le> n \<and> n \<le> 90 then char_of (n + 32) else c)"

text \<open>The characters \<open>s[l], ..., s[r]\<close>, for stating what the loops have read.\<close>

definition seg :: "'c list \<Rightarrow> int \<Rightarrow> int \<Rightarrow> 'c list" where
  "seg s l r = map (\<lambda>i. s ! nat i) [l..r]"

text \<open>
  The loop of \<open>remove_duplicates\<close> over the characters still to read, with the set
  \<open>seen\<close> and the list \<open>result\<close>.
\<close>

fun remove_duplicates_loop :: "'c list \<Rightarrow> 'c set \<Rightarrow> 'c list \<Rightarrow> 'c list" where
  "remove_duplicates_loop [] seen result = result"
| "remove_duplicates_loop (char # rest) seen result =
     (if char \<notin> seen then remove_duplicates_loop rest (insert char seen) (result @ [char])
      else remove_duplicates_loop rest seen result)"

text \<open>
  \<open>remove_duplicates\<close>. The result is \<open>''.join(result)\<close>: the string of the characters
  of \<open>result\<close>, in order.
\<close>

definition remove_duplicates :: "'c list \<Rightarrow> 'c list" where
  "remove_duplicates s = remove_duplicates_loop s {} []"

text \<open>
  What the specification asks of \<open>removeDuplicates\<close>, in its own words: the characters at
  the positions where a character occurs for the first time, in the order of these positions.
\<close>

definition first_occurrences :: "'c list \<Rightarrow> 'c list" where
  "first_occurrences s =
     map (\<lambda>i. s ! i) (filter (\<lambda>i. s ! i \<notin> set (take i s)) [0..<length s])"

section \<open>Subscripts in range\<close>

lemma getitem_in_range:
  "0 \<le> i \<Longrightarrow> i < int (length xs) \<Longrightarrow> getitem xs i = Inr (xs ! nat i)"
  by (simp add: getitem_def)

lemma setitem_in_range:
  "0 \<le> i \<Longrightarrow> i < int (length xs) \<Longrightarrow> setitem xs i v = Inr (xs[nat i := v])"
  by (simp add: setitem_def)

section \<open>The loops, slot by slot\<close>

text \<open>
  With every subscript in range, each loop finishes without an exception, keeps the length
  of the buffer it writes, and its effect is given slot by slot.
\<close>

lemma resize_copy_nth:
  "\<forall>i\<in>set idxs. 0 \<le> i \<and> i < int (length old_data) \<and> i < int (length new_data) \<Longrightarrow>
   \<exists>r. resize_copy idxs old_data new_data = Inr r \<and> length r = length new_data \<and>
       (\<forall>j<length new_data. r ! j = (if int j \<in> set idxs then old_data ! j else new_data ! j))"
proof (induction idxs arbitrary: new_data)
  case Nil
  then show ?case by simp
next
  case (Cons i rest)
  let ?nd = "new_data[nat i := old_data ! nat i]"
  from Cons.prems have i: "0 \<le> i" "i < int (length old_data)" "i < int (length new_data)"
    by simp_all
  from Cons.prems have "\<forall>i\<in>set rest. 0 \<le> i \<and> i < int (length old_data) \<and> i < int (length ?nd)"
    by simp
  from Cons.IH [OF this] obtain r where r: "resize_copy rest old_data ?nd = Inr r"
    "length r = length ?nd"
    "\<forall>j<length ?nd. r ! j = (if int j \<in> set rest then old_data ! j else ?nd ! j)"
    by blast
  have "resize_copy (i # rest) old_data new_data = Inr r"
    using i r(1) by (simp add: getitem_in_range setitem_in_range)
  moreover have "length r = length new_data" using r(2) by simp
  moreover have "\<forall>j<length new_data. r ! j = (if int j \<in> set (i # rest) then old_data ! j else new_data ! j)"
  proof (intro allI impI)
    fix j assume j: "j < length new_data"
    then have "r ! j = (if int j \<in> set rest then old_data ! j else ?nd ! j)"
      using r(3) by simp
    then show "r ! j = (if int j \<in> set (i # rest) then old_data ! j else new_data ! j)"
      using i j by (cases "j = nat i") auto
  qed
  ultimately show ?case by blast
qed

lemma shift_right_nth:
  "0 \<le> index \<Longrightarrow> index \<le> i + 1 \<Longrightarrow> i + 1 < int (length d) \<Longrightarrow>
   \<exists>r. shift_right i index d = (Inr (), r) \<and> length r = length d \<and>
       (\<forall>j<length d. r ! j = (if index < int j \<and> int j \<le> i + 1 then d ! (j - 1) else d ! j))"
proof (induction i index d rule: shift_right.induct)
  case (1 i index d)
  show ?case
  proof (cases "index \<le> i")
    case False
    then have "shift_right i index d = (Inr (), d)"
      by (simp add: shift_right.simps)
    moreover from False "1.prems" have "\<forall>j<length d. \<not> (index < int j \<and> int j \<le> i + 1)"
      by auto
    ultimately show ?thesis by auto
  next
    case True
    let ?d' = "d[nat (i + 1) := d ! nat i]"
    from True "1.prems" have i: "0 \<le> i" "i < int (length d)" by simp_all
    have g: "getitem d i = Inr (d ! nat i)" using i by (rule getitem_in_range)
    have s: "setitem d (i + 1) (d ! nat i) = Inr ?d'"
      using i "1.prems" by (simp add: setitem_in_range)
    have "\<exists>r. shift_right (i - 1) index ?d' = (Inr (), r) \<and> length r = length ?d' \<and>
       (\<forall>j<length ?d'. r ! j = (if index < int j \<and> int j \<le> i - 1 + 1 then ?d' ! (j - 1) else ?d' ! j))"
      using "1.IH" [OF _ g s] True "1.prems" by simp
    then obtain r where r: "shift_right (i - 1) index ?d' = (Inr (), r)" "length r = length d"
      "\<forall>j<length d. r ! j = (if index < int j \<and> int j \<le> i then ?d' ! (j - 1) else ?d' ! j)"
      by auto
    have "shift_right i index d = (Inr (), r)"
      using True g s r(1) by (subst shift_right.simps) simp
    moreover have "\<forall>j<length d. r ! j = (if index < int j \<and> int j \<le> i + 1 then d ! (j - 1) else d ! j)"
    proof (intro allI impI)
      fix j assume j: "j < length d"
      then have rj: "r ! j = (if index < int j \<and> int j \<le> i then ?d' ! (j - 1) else ?d' ! j)"
        using r(3) by simp
      show "r ! j = (if index < int j \<and> int j \<le> i + 1 then d ! (j - 1) else d ! j)"
      proof (cases "int j = i + 1")
        case True
        then have "j = nat (i + 1)" "j - 1 = nat i" by linarith+
        with rj j True \<open>index \<le> i\<close> show ?thesis by simp
      next
        case False
        then have "j \<noteq> nat (i + 1)" using i by linarith
        moreover have "index < int j \<and> int j \<le> i \<Longrightarrow> j - 1 \<noteq> nat (i + 1)"
          by linarith
        ultimately show ?thesis using rj False by auto
      qed
    qed
    ultimately show ?thesis using r(2) by blast
  qed
qed

lemma shift_left_nth:
  "nat (b - a + 1) = n \<Longrightarrow> 0 \<le> a \<Longrightarrow> b + 1 < int (length d) \<Longrightarrow>
   \<exists>r. shift_left [a..b] d = (Inr (), r) \<and> length r = length d \<and>
       (\<forall>j<length d. r ! j = (if a \<le> int j \<and> int j \<le> b then d ! (j + 1) else d ! j))"
proof (induction n arbitrary: a d)
  case 0
  then have "[a..b] = []" by simp
  moreover from 0 have "\<forall>j<length d. \<not> (a \<le> int j \<and> int j \<le> b)" by auto
  ultimately show ?case by auto
next
  case (Suc n)
  let ?d' = "d[nat a := d ! nat (a + 1)]"
  from Suc.prems have ab: "a \<le> b" by linarith
  then have up: "[a..b] = a # [a + 1..b]" by (simp add: upto_rec1)
  have g: "getitem d (a + 1) = Inr (d ! nat (a + 1))"
    using ab Suc.prems by (simp add: getitem_in_range)
  have s: "setitem d a (d ! nat (a + 1)) = Inr ?d'"
    using ab Suc.prems by (simp add: setitem_in_range)
  have "\<exists>r. shift_left [a + 1..b] ?d' = (Inr (), r) \<and> length r = length ?d' \<and>
       (\<forall>j<length ?d'. r ! j = (if a + 1 \<le> int j \<and> int j \<le> b then ?d' ! (j + 1) else ?d' ! j))"
    using Suc.prems by (intro Suc.IH) simp_all
  then obtain r where r: "shift_left [a + 1..b] ?d' = (Inr (), r)" "length r = length d"
      "\<forall>j<length d. r ! j = (if a + 1 \<le> int j \<and> int j \<le> b then ?d' ! (j + 1) else ?d' ! j)"
    by auto
  have "shift_left [a..b] d = (Inr (), r)"
    using up g s r(1) by simp
  moreover have "\<forall>j<length d. r ! j = (if a \<le> int j \<and> int j \<le> b then d ! (j + 1) else d ! j)"
  proof (intro allI impI)
    fix j assume j: "j < length d"
    then have rj: "r ! j = (if a + 1 \<le> int j \<and> int j \<le> b then ?d' ! (j + 1) else ?d' ! j)"
      using r(3) by simp
    show "r ! j = (if a \<le> int j \<and> int j \<le> b then d ! (j + 1) else d ! j)"
    proof (cases "int j = a")
      case True
      then have "j = nat a" "j + 1 = nat (a + 1)" by linarith+
      with rj j True ab show ?thesis by simp
    next
      case False
      then have "j \<noteq> nat a" using Suc.prems by linarith
      moreover have "a + 1 \<le> int j \<Longrightarrow> j + 1 \<noteq> nat a" by linarith
      ultimately show ?thesis using rj False by auto
    qed
  qed
  ultimately show ?case using r(2) by blast
qed

section \<open>The methods on a well-formed object\<close>

lemma resize_wf:
  assumes "da_wf s"
  shows "resize s = (Inr (), s\<lparr>capacity := capacity s * 2,
            data := live s @ py_repeat None (capacity s * 2 - size_da s)\<rparr>)"
proof -
  let ?new = "py_repeat (None :: 'a option) (capacity s * 2)"
  let ?n = "nat (size_da s)"
  from assms have wf: "0 \<le> size_da s" "size_da s \<le> capacity s" "1 \<le> capacity s"
    "int (length (data s)) = capacity s" by (simp_all add: da_wf_def)
  have len: "length ?new = nat (capacity s * 2)" by (simp add: py_repeat_def)
  have "\<forall>i\<in>set (py_range 0 (size_da s)). 0 \<le> i \<and> i < int (length (data s)) \<and> i < int (length ?new)"
    using wf len by (auto simp: py_range_def)
  from resize_copy_nth [OF this] obtain r where
    r: "resize_copy (py_range 0 (size_da s)) (data s) ?new = Inr r" "length r = length ?new"
       "\<forall>j<length ?new. r ! j = (if int j \<in> set (py_range 0 (size_da s)) then data s ! j else ?new ! j)"
    by blast
  have "r = live s @ py_repeat None (capacity s * 2 - size_da s)"
  proof (rule nth_equalityI)
    show "length r = length (live s @ py_repeat None (capacity s * 2 - size_da s))"
      using r(2) len wf by (simp add: live_def py_repeat_def)
  next
    fix j assume "j < length r"
    then have j: "j < nat (capacity s * 2)" using r(2) len by simp
    then have "r ! j = (if int j \<in> set (py_range 0 (size_da s)) then data s ! j else ?new ! j)"
      using r(3) len by simp
    then show "r ! j = (live s @ py_repeat None (capacity s * 2 - size_da s)) ! j"
      using j wf by (auto simp: py_range_def live_def py_repeat_def nth_append)
  qed
  with r(1) show ?thesis by (simp add: resize_def Let_def)
qed

lemma resize_if_full_wf:
  assumes "da_wf s"
  shows "\<exists>s1. resize_if_full s = (Inr (), s1) \<and> da_wf s1 \<and> size_da s1 = size_da s \<and>
           size_da s1 < capacity s1 \<and>
           capacity s1 = (if size_da s = capacity s then capacity s * 2 else capacity s) \<and>
           live s1 = live s \<and> (size_da s < capacity s \<longrightarrow> s1 = s)"
proof (cases "size_da s = capacity s")
  case True
  let ?s1 = "s\<lparr>capacity := capacity s * 2,
            data := live s @ py_repeat None (capacity s * 2 - size_da s)\<rparr>"
  from assms have wf: "0 \<le> size_da s" "size_da s \<le> capacity s" "1 \<le> capacity s"
    "int (length (data s)) = capacity s" by (simp_all add: da_wf_def)
  have "resize_if_full s = (Inr (), ?s1)"
    using True resize_wf [OF assms] by (simp add: resize_if_full_def)
  moreover have "da_wf ?s1" using wf by (simp add: da_wf_def live_def py_repeat_def)
  moreover have "live ?s1 = live s" using wf by (simp add: live_def)
  ultimately show ?thesis using True wf by (intro exI [of _ ?s1]) simp
next
  case False
  then have "resize_if_full s = (Inr (), s)" by (simp add: resize_if_full_def)
  with False assms show ?thesis by (simp add: da_wf_def)
qed

lemma append_wf:
  assumes "da_wf s"
  shows "\<exists>s1. resize_if_full s = (Inr (), s1) \<and>
           append_da x s = (Inr (), s1\<lparr>data := (data s1)[nat (size_da s) := x],
                                       size_da := size_da s + 1\<rparr>)"
proof -
  from resize_if_full_wf [OF assms] obtain s1 where
    s1: "resize_if_full s = (Inr (), s1)" "da_wf s1" "size_da s1 = size_da s"
        "size_da s1 < capacity s1" by blast
  then have "setitem (data s1) (size_da s1) x = Inr ((data s1)[nat (size_da s) := x])"
    by (simp add: da_wf_def setitem_in_range)
  with s1 show ?thesis by (simp add: append_da_def)
qed

lemma insert_wf:
  assumes "da_wf s" "0 \<le> i" "i \<le> size_da s"
  shows "\<exists>s1 d'. resize_if_full s = (Inr (), s1) \<and>
           insert_da i v s = (Inr (), s1\<lparr>data := d', size_da := size_da s + 1\<rparr>) \<and>
           length d' = length (data s1) \<and>
           (\<forall>j<length d'. d' ! j =
              (if int j = i then v
               else if i < int j \<and> int j \<le> size_da s then data s1 ! (j - 1)
               else data s1 ! j))"
proof -
  from resize_if_full_wf [OF assms(1)] obtain s1 where
    s1: "resize_if_full s = (Inr (), s1)" "da_wf s1" "size_da s1 = size_da s"
        "size_da s1 < capacity s1" by blast
  then have len: "size_da s < int (length (data s1))" by (simp add: da_wf_def)
  have "\<exists>r. shift_right (size_da s - 1) i (data s1) = (Inr (), r) \<and> length r = length (data s1) \<and>
       (\<forall>j<length (data s1). r ! j =
          (if i < int j \<and> int j \<le> size_da s - 1 + 1 then data s1 ! (j - 1) else data s1 ! j))"
    using assms len by (intro shift_right_nth) simp_all
  then obtain r where r: "shift_right (size_da s - 1) i (data s1) = (Inr (), r)"
      "length r = length (data s1)"
      "\<forall>j<length (data s1). r ! j =
          (if i < int j \<and> int j \<le> size_da s then data s1 ! (j - 1) else data s1 ! j)"
    by auto
  have st: "setitem r i v = Inr (r[nat i := v])"
    using assms len r(2) by (simp add: setitem_in_range)
  have "insert_da i v s = (Inr (), s1\<lparr>data := r[nat i := v], size_da := size_da s + 1\<rparr>)"
    using assms s1 r(1) st by (simp add: insert_da_def)
  moreover have "\<forall>j<length (r[nat i := v]). (r[nat i := v]) ! j =
              (if int j = i then v
               else if i < int j \<and> int j \<le> size_da s then data s1 ! (j - 1)
               else data s1 ! j)"
  proof (intro allI impI)
    fix j assume j: "j < length (r[nat i := v])"
    show "(r[nat i := v]) ! j =
              (if int j = i then v
               else if i < int j \<and> int j \<le> size_da s then data s1 ! (j - 1)
               else data s1 ! j)"
    proof (cases "int j = i")
      case True
      then have "j = nat i" by linarith
      with j True show ?thesis by simp
    next
      case False
      then have "j \<noteq> nat i" using assms(2) by linarith
      with j r(2,3) False show ?thesis by simp
    qed
  qed
  ultimately show ?thesis using s1(1) r(2) by (intro exI [of _ s1] exI [of _ "r[nat i := v]"]) simp
qed

lemma delete_wf:
  assumes "da_wf s" "0 \<le> i" "i < size_da s"
  shows "\<exists>d'. delete i s = (Inr (data s ! nat i), s\<lparr>data := d', size_da := size_da s - 1\<rparr>) \<and>
           length d' = length (data s) \<and>
           (\<forall>j<length d'. d' ! j =
              (if int j = size_da s - 1 then None
               else if i \<le> int j \<and> int j \<le> size_da s - 2 then data s ! (j + 1)
               else data s ! j))"
proof -
  from assms have wf: "0 \<le> size_da s" "size_da s \<le> capacity s"
    "int (length (data s)) = capacity s" by (simp_all add: da_wf_def)
  have g: "getitem (data s) i = Inr (data s ! nat i)"
    using assms wf by (simp add: getitem_in_range)
  have "\<exists>r. shift_left [i..size_da s - 2] (data s) = (Inr (), r) \<and> length r = length (data s) \<and>
       (\<forall>j<length (data s). r ! j =
          (if i \<le> int j \<and> int j \<le> size_da s - 2 then data s ! (j + 1) else data s ! j))"
    using assms wf by (intro shift_left_nth [OF refl]) simp_all
  then obtain r where r: "shift_left [i..size_da s - 2] (data s) = (Inr (), r)"
      "length r = length (data s)"
      "\<forall>j<length (data s). r ! j =
          (if i \<le> int j \<and> int j \<le> size_da s - 2 then data s ! (j + 1) else data s ! j)"
    by auto
  let ?d' = "r[nat (size_da s - 1) := None]"
  have st: "setitem r (size_da s - 1) None = Inr ?d'"
    using assms wf r(2) by (simp add: setitem_in_range)
  have "delete i s = (Inr (data s ! nat i), s\<lparr>data := ?d', size_da := size_da s - 1\<rparr>)"
    using assms g r(1) st by (simp add: delete_def py_range_def)
  moreover have "\<forall>j<length ?d'. ?d' ! j =
              (if int j = size_da s - 1 then None
               else if i \<le> int j \<and> int j \<le> size_da s - 2 then data s ! (j + 1)
               else data s ! j)"
  proof (intro allI impI)
    fix j assume j: "j < length ?d'"
    show "?d' ! j =
              (if int j = size_da s - 1 then None
               else if i \<le> int j \<and> int j \<le> size_da s - 2 then data s ! (j + 1)
               else data s ! j)"
    proof (cases "int j = size_da s - 1")
      case True
      then have "j = nat (size_da s - 1)" by linarith
      with j True show ?thesis by simp
    next
      case False
      then have "j \<noteq> nat (size_da s - 1)" using assms by linarith
      with j r(2,3) False show ?thesis by simp
    qed
  qed
  ultimately show ?thesis using r(2) by (intro exI [of _ ?d']) simp
qed

section \<open>Every call keeps the object well formed\<close>

lemma init_wf: "da_wf init_da"
  by (simp add: da_wf_def init_da_def py_repeat_def)

lemma append_step:
  assumes "da_wf s"
  shows "da_wf (snd (append_da x s)) \<and> fst (append_da x s) = Inr () \<and>
         size_da (snd (append_da x s)) = size_da s + 1 \<and>
         capacity (snd (append_da x s)) =
           (if size_da s = capacity s then capacity s * 2 else capacity s)"
proof -
  from resize_if_full_wf [OF assms] obtain s1 where
    s1: "resize_if_full s = (Inr (), s1)" "da_wf s1" "size_da s1 = size_da s"
        "size_da s1 < capacity s1"
        "capacity s1 = (if size_da s = capacity s then capacity s * 2 else capacity s)"
    by blast
  from append_wf [OF assms, of x] s1(1) have
    "append_da x s = (Inr (), s1\<lparr>data := (data s1)[nat (size_da s) := x],
                                       size_da := size_da s + 1\<rparr>)"
    by auto
  with s1 show ?thesis by (simp add: da_wf_def)
qed

lemma insert_step:
  assumes "da_wf s"
  shows "da_wf (snd (insert_da i x s)) \<and>
         (capacity (snd (insert_da i x s)) = capacity s \<or>
          capacity (snd (insert_da i x s)) = capacity s * 2)"
proof (cases "0 \<le> i \<and> i \<le> size_da s")
  case False
  then have "insert_da i x s = (Inl IndexError, s)" by (auto simp: insert_da_def)
  with assms show ?thesis by simp
next
  case True
  from resize_if_full_wf [OF assms] obtain s1 where
    s1: "resize_if_full s = (Inr (), s1)" "da_wf s1" "size_da s1 = size_da s"
        "size_da s1 < capacity s1"
        "capacity s1 = (if size_da s = capacity s then capacity s * 2 else capacity s)"
    by blast
  from insert_wf [OF assms, of i x] True s1(1) obtain d' where
    "insert_da i x s = (Inr (), s1\<lparr>data := d', size_da := size_da s + 1\<rparr>)"
    "length d' = length (data s1)"
    by auto
  with s1 show ?thesis by (simp add: da_wf_def)
qed

lemma delete_step:
  assumes "da_wf s"
  shows "da_wf (snd (delete i s)) \<and> capacity (snd (delete i s)) = capacity s"
proof (cases "0 \<le> i \<and> i < size_da s")
  case False
  then have "delete i s = (Inl IndexError, s)" by (auto simp: delete_def)
  with assms show ?thesis by simp
next
  case True
  from delete_wf [OF assms, of i] True obtain d' where
    "delete i s = (Inr (data s ! nat i), s\<lparr>data := d', size_da := size_da s - 1\<rparr>)"
    "length d' = length (data s)"
    by auto
  with assms True show ?thesis by (simp add: da_wf_def)
qed

lemma step_wf:
  assumes "da_wf s"
  shows "da_wf (step c s) \<and>
         (capacity (step c s) = capacity s \<or> capacity (step c s) = capacity s * 2)"
proof (cases c)
  case (Append x)
  with append_step [OF assms, of x] show ?thesis by simp
next
  case (Insert i x)
  with insert_step [OF assms, of i x] show ?thesis by simp
next
  case (Delete i)
  with delete_step [OF assms, of i] show ?thesis by simp
next
  case (Get i)
  with assms show ?thesis by simp
qed

lemma run_wf: "da_wf s \<Longrightarrow> da_wf (run cs s)"
  by (induction cs arbitrary: s) (simp_all add: step_wf)

lemma run_capacity_mono: "da_wf s \<Longrightarrow> capacity s \<le> capacity (run cs s)"
proof (induction cs arbitrary: s)
  case Nil
  then show ?case by simp
next
  case (Cons c cs)
  from step_wf [OF Cons.prems, of c] have "da_wf (step c s)" "capacity s \<le> capacity (step c s)"
    using Cons.prems by (auto simp: da_wf_def)
  with Cons.IH [of "step c s"] show ?case by simp
qed

lemma run_pow2:
  "da_wf s \<Longrightarrow> \<exists>k. 1 \<le> k \<and> capacity s = 2 ^ k \<Longrightarrow> \<exists>k. 1 \<le> k \<and> capacity (run cs s) = 2 ^ k"
proof (induction cs arbitrary: s)
  case Nil
  then show ?case by simp
next
  case (Cons c cs)
  from Cons.prems(2) obtain k :: nat where k: "1 \<le> k" "capacity s = 2 ^ k" by blast
  from step_wf [OF Cons.prems(1), of c] have wf: "da_wf (step c s)"
    and "capacity (step c s) = 2 ^ k \<or> capacity (step c s) = 2 ^ Suc k"
    using k by auto
  then have "\<exists>k. 1 \<le> k \<and> capacity (step c s) = 2 ^ k"
    using k(1) by (metis le_SucI)
  with Cons.IH [OF wf] show ?case by simp
qed

section \<open>Further facts about the methods\<close>

lemma get_in_range:
  "da_wf s \<Longrightarrow> 0 \<le> j \<Longrightarrow> j < size_da s \<Longrightarrow> get j s = Inr (data s ! nat j)"
  by (simp add: get_def da_wf_def getitem_in_range)

lemma live_nth:
  "live s1 = live s \<Longrightarrow> size_da s1 = size_da s \<Longrightarrow> j < nat (size_da s) \<Longrightarrow>
   data s1 ! j = data s ! j"
  by (metis live_def nth_take)

lemma insert_slots:
  assumes "da_wf s" "0 \<le> i" "i \<le> size_da s"
  shows "\<exists>s'. insert_da i v s = (Inr (), s') \<and> da_wf s' \<and> size_da s' = size_da s + 1 \<and>
           (\<forall>j. int j \<le> size_da s \<longrightarrow> data s' ! j =
              (if int j = i then v
               else if i < int j then data s ! (j - 1)
               else data s ! j))"
proof -
  from resize_if_full_wf [OF assms(1)] obtain s1 where
    s1: "resize_if_full s = (Inr (), s1)" "da_wf s1" "size_da s1 = size_da s"
        "size_da s1 < capacity s1" "live s1 = live s"
    by blast
  from insert_wf [OF assms, of v] s1(1) obtain d' where
    d': "insert_da i v s = (Inr (), s1\<lparr>data := d', size_da := size_da s + 1\<rparr>)"
        "length d' = length (data s1)"
        "\<forall>j<length d'. d' ! j =
              (if int j = i then v
               else if i < int j \<and> int j \<le> size_da s then data s1 ! (j - 1)
               else data s1 ! j)"
    by auto
  let ?s' = "s1\<lparr>data := d', size_da := size_da s + 1\<rparr>"
  have wf': "da_wf ?s'" using s1 d'(2) assms by (simp add: da_wf_def)
  have "\<forall>j. int j \<le> size_da s \<longrightarrow> data ?s' ! j =
              (if int j = i then v
               else if i < int j then data s ! (j - 1)
               else data s ! j)"
  proof (intro allI impI)
    fix j assume j: "int j \<le> size_da s"
    then have jl: "j < length d'" using s1 d'(2) by (simp add: da_wf_def)
    have old: "\<And>m. m < nat (size_da s) \<Longrightarrow> data s1 ! m = data s ! m"
      using s1 by (intro live_nth) simp_all
    have a: "i < int j \<Longrightarrow> data s1 ! (j - 1) = data s ! (j - 1)"
      using j assms by (intro old) linarith
    have b: "int j < i \<Longrightarrow> data s1 ! j = data s ! j"
      using j assms by (intro old) linarith
    from d'(3) jl have "d' ! j =
              (if int j = i then v
               else if i < int j \<and> int j \<le> size_da s then data s1 ! (j - 1)
               else data s1 ! j)" by simp
    with j a b show "data ?s' ! j =
              (if int j = i then v
               else if i < int j then data s ! (j - 1)
               else data s ! j)" by auto
  qed
  with d'(1) wf' show ?thesis by (intro exI [of _ ?s']) simp
qed

lemma resize_if_full_size: "size_da (snd (resize_if_full s)) = size_da s"
  by (simp add: resize_if_full_def resize_def Let_def split: sum.splits)

lemma insert_at_size:
  assumes "0 \<le> size_da s"
  shows "insert_da (size_da s) v s = append_da v s"
proof -
  obtain r s1 where rs: "resize_if_full s = (r, s1)" by (cases "resize_if_full s")
  then have sz: "size_da s1 = size_da s" using resize_if_full_size [of s] by simp
  have "shift_right (size_da s - 1) (size_da s) (data s1) = (Inr (), data s1)"
    by (simp add: shift_right.simps)
  with assms rs sz show ?thesis
    by (simp add: insert_da_def append_da_def split: sum.splits)
qed

lemma run_app: "run (cs @ ds) s = run ds (run cs s)"
  by (induction cs arbitrary: s) simp_all

lemma append_all_shape:
  "\<exists>k. 1 \<le> k \<and> da_wf (run (map Append xs) init_da) \<and>
       size_da (run (map Append xs) init_da) = int (length xs) \<and>
       capacity (run (map Append xs) init_da) = 2 ^ k \<and>
       int (length xs) \<le> 2 ^ k \<and> (k = 1 \<or> 2 ^ (k - 1) < int (length xs))"
proof (induction xs rule: rev_induct)
  case Nil
  have "da_wf (init_da :: 'a DynamicArray)" by (rule init_wf)
  then show ?case by (intro exI [of _ 1]) (simp add: init_da_def)
next
  case (snoc x xs)
  let ?s = "run (map Append xs) init_da"
  let ?n = "int (length xs)"
  from snoc obtain k :: nat where k: "1 \<le> k" "da_wf ?s" "size_da ?s = ?n" "capacity ?s = 2 ^ k"
    "?n \<le> 2 ^ k" "k = 1 \<or> 2 ^ (k - 1) < ?n" by blast
  have r: "run (map Append (xs @ [x])) init_da = snd (append_da x ?s)"
    by (simp add: run_app)
  from append_step [OF k(2), of x] have a: "da_wf (snd (append_da x ?s))"
    "size_da (snd (append_da x ?s)) = ?n + 1"
    "capacity (snd (append_da x ?s)) = (if ?n = 2 ^ k then 2 ^ k * 2 else 2 ^ k)"
    using k(3,4) by simp_all
  have len: "int (length (xs @ [x])) = ?n + 1" by simp
  show ?case
  proof (cases "?n = 2 ^ k")
    case True
    have c: "capacity (snd (append_da x ?s)) = 2 ^ Suc k" using a(3) True by simp
    have f1: "?n + 1 \<le> 2 ^ Suc k" using True by simp
    have f2: "Suc k = 1 \<or> (2::int) ^ (Suc k - 1) < ?n + 1" using True by simp
    have "1 \<le> Suc k" by simp
    then show ?thesis unfolding r len using a(1,2) c f1 f2 by blast
  next
    case False
    have c: "capacity (snd (append_da x ?s)) = 2 ^ k" using a(3) False by simp
    have f1: "?n + 1 \<le> 2 ^ k" using k(5) False by linarith
    have f2: "k = 1 \<or> (2::int) ^ (k - 1) < ?n + 1" using k(6) by linarith
    show ?thesis unfolding r len using a(1,2) c f1 f2 k(1) by blast
  qed
qed

section \<open>The loops of the string utilities\<close>

lemma seg_whole: "seg s 0 (int (length s) - 1) = s"
proof (rule nth_equalityI)
  show "length (seg s 0 (int (length s) - 1)) = length s" by (simp add: seg_def)
next
  fix k assume "k < length (seg s 0 (int (length s) - 1))"
  then have k: "k < length s" by (simp add: seg_def)
  then have "[0..int (length s) - 1] ! k = 0 + int k" by (intro nth_upto) simp
  with k show "seg s 0 (int (length s) - 1) ! k = s ! k" by (simp add: seg_def)
qed

lemma seg_empty: "r < l \<Longrightarrow> seg s l r = []"
  by (simp add: seg_def)

lemma seg_first: "l \<le> r \<Longrightarrow> seg s l r = s ! nat l # seg s (l + 1) r"
  by (simp add: seg_def upto_rec1)

lemma seg_last: "l \<le> r \<Longrightarrow> seg s l r = seg s l (r - 1) @ [s ! nat r]"
  by (simp add: seg_def upto_rec2)

lemma seg_split: "l \<le> m \<Longrightarrow> m \<le> r + 1 \<Longrightarrow> seg s l r = seg s l (m - 1) @ seg s m r"
proof -
  assume a: "l \<le> m" "m \<le> r + 1"
  show ?thesis
  proof (cases "m \<le> r")
    case True
    with a have "[l..r] = [l..m - 1] @ [m..r]" by (intro upto_split1)
    then show ?thesis by (simp add: seg_def)
  next
    case False
    with a have "m = r + 1" by simp
    then show ?thesis by (simp add: seg_def)
  qed
qed

lemma skip_left_spec:
  "0 \<le> left \<Longrightarrow> right < int (length s) \<Longrightarrow> left \<le> right \<Longrightarrow>
   \<exists>l'. skip_left isalnum s left right = Inr l' \<and> left \<le> l' \<and> l' \<le> right \<and>
        filter isalnum (seg s left (l' - 1)) = [] \<and> (l' < right \<longrightarrow> isalnum (s ! nat l'))"
proof (induction isalnum s left right rule: skip_left.induct)
  case (1 isalnum s left right)
  show ?case
  proof (cases "left < right \<and> \<not> isalnum (s ! nat left)")
    case True
    have g: "getitem s left = Inr (s ! nat left)"
      using True "1.prems" by (intro getitem_in_range) simp_all
    from "1.IH" [OF _ g] True "1.prems" obtain l' where
      l': "skip_left isalnum s (left + 1) right = Inr l'" "left + 1 \<le> l'" "l' \<le> right"
          "filter isalnum (seg s (left + 1) (l' - 1)) = []" "l' < right \<longrightarrow> isalnum (s ! nat l')"
      by auto
    have "skip_left isalnum s left right = Inr l'"
      using True g l'(1) by (subst skip_left.simps) simp
    moreover have "filter isalnum (seg s left (l' - 1)) = []"
      using True l'(2,4) seg_first [of left "l' - 1" s] by simp
    ultimately show ?thesis using l'(2,3,5) by (intro exI [of _ l']) simp
  next
    case False
    have "skip_left isalnum s left right = Inr left"
    proof (cases "left < right")
      case True
      then have "getitem s left = Inr (s ! nat left)"
        using "1.prems" by (intro getitem_in_range) simp_all
      with True False show ?thesis by (subst skip_left.simps) simp
    next
      case False
      then show ?thesis by (subst skip_left.simps) simp
    qed
    with False "1.prems" show ?thesis
      by (intro exI [of _ left]) (auto simp: seg_empty)
  qed
qed

lemma skip_right_spec:
  "0 \<le> left \<Longrightarrow> right < int (length s) \<Longrightarrow> left \<le> right \<Longrightarrow>
   \<exists>r'. skip_right isalnum s left right = Inr r' \<and> left \<le> r' \<and> r' \<le> right \<and>
        filter isalnum (seg s (r' + 1) right) = [] \<and> (left < r' \<longrightarrow> isalnum (s ! nat r'))"
proof (induction isalnum s left right rule: skip_right.induct)
  case (1 isalnum s left right)
  show ?case
  proof (cases "left < right \<and> \<not> isalnum (s ! nat right)")
    case True
    have g: "getitem s right = Inr (s ! nat right)"
      using True "1.prems" by (intro getitem_in_range) simp_all
    from "1.IH" [OF _ g] True "1.prems" obtain r' where
      r': "skip_right isalnum s left (right - 1) = Inr r'" "left \<le> r'" "r' \<le> right - 1"
          "filter isalnum (seg s (r' + 1) (right - 1)) = []" "left < r' \<longrightarrow> isalnum (s ! nat r')"
      by auto
    have "skip_right isalnum s left right = Inr r'"
      using True g r'(1) by (subst skip_right.simps) simp
    moreover have "filter isalnum (seg s (r' + 1) right) = []"
      using True r'(3,4) seg_last [of "r' + 1" right s] by simp
    ultimately show ?thesis using r'(2,3,5) by (intro exI [of _ r']) simp
  next
    case False
    have "skip_right isalnum s left right = Inr right"
    proof (cases "left < right")
      case True
      then have "getitem s right = Inr (s ! nat right)"
        using "1.prems" by (intro getitem_in_range) simp_all
      with True False show ?thesis by (subst skip_right.simps) simp
    next
      case False
      then show ?thesis by (subst skip_right.simps) simp
    qed
    with False "1.prems" show ?thesis
      by (intro exI [of _ right]) (auto simp: seg_empty)
  qed
qed

lemma short_palindrome: "length xs \<le> 1 \<Longrightarrow> xs = rev xs"
  by (cases xs) simp_all

lemma short_filtered: "length xs \<le> 1 \<Longrightarrow> length (map f (filter P xs)) \<le> 1"
  using le_trans [OF length_filter_le [of P xs], of 1] by simp

lemma seg_short: "right \<le> left \<Longrightarrow> length (seg s left right) \<le> 1"
  by (simp add: seg_def)

lemma ends_palindrome: "(x # m @ [y] = rev (x # m @ [y])) \<longleftrightarrow> (x = y \<and> m = rev m)"
  by auto

lemma palindrome_loop_spec:
  "0 \<le> left \<Longrightarrow> right < int (length s) \<Longrightarrow>
   palindrome_loop isalnum lower s left right =
     Inr (map lower (filter isalnum (seg s left right)) =
          rev (map lower (filter isalnum (seg s left right))))"
proof (induction isalnum lower s left right rule: palindrome_loop.induct)
  case (1 isalnum lower s left right)
  let ?W = "\<lambda>l r. map lower (filter isalnum (seg s l r))"
  show ?case
  proof (cases "left < right")
    case False
    then have "length (?W left right) \<le> 1"
      by (intro short_filtered seg_short) simp
    then have "?W left right = rev (?W left right)" by (rule short_palindrome)
    moreover from False have "palindrome_loop isalnum lower s left right = Inr True"
      by (subst palindrome_loop.simps) simp
    ultimately show ?thesis by simp
  next
    case True
    from skip_left_spec [of left right s isalnum] True "1.prems" obtain l' where
      l': "skip_left isalnum s left right = Inr l'" "left \<le> l'" "l' \<le> right"
          "filter isalnum (seg s left (l' - 1)) = []" "l' < right \<longrightarrow> isalnum (s ! nat l')"
      by auto
    from skip_right_spec [of l' right s isalnum] l'(2,3) "1.prems" obtain r' where
      r': "skip_right isalnum s l' right = Inr r'" "l' \<le> r'" "r' \<le> right"
          "filter isalnum (seg s (r' + 1) right) = []" "l' < r' \<longrightarrow> isalnum (s ! nat r')"
      by auto
    have ga: "getitem s l' = Inr (s ! nat l')"
      using l'(2,3) "1.prems" by (intro getitem_in_range) simp_all
    have gb: "getitem s r' = Inr (s ! nat r')"
      using l'(2) r'(2,3) "1.prems" by (intro getitem_in_range) simp_all
    have "seg s left right = seg s left (l' - 1) @ seg s l' right"
      using l'(2,3) by (intro seg_split) simp_all
    moreover have "seg s l' right = seg s l' r' @ seg s (r' + 1) right"
      using seg_split [of l' "r' + 1" right s] r'(2,3) by simp
    ultimately have W: "?W left right = ?W l' r'"
      using l'(4) r'(4) by simp
    have step: "palindrome_loop isalnum lower s left right =
        (if lower (s ! nat l') \<noteq> lower (s ! nat r') then Inr False
         else palindrome_loop isalnum lower s (l' + 1) (r' - 1))"
      using True l'(1) r'(1) ga gb by (subst palindrome_loop.simps) simp
    have IH: "lower (s ! nat l') = lower (s ! nat r') \<Longrightarrow>
        palindrome_loop isalnum lower s (l' + 1) (r' - 1) =
          Inr (?W (l' + 1) (r' - 1) = rev (?W (l' + 1) (r' - 1)))"
      using "1.IH" [OF True l'(1) r'(1) ga gb] l'(2) r'(3) "1.prems" by simp
    show ?thesis
    proof (cases "l' < r'")
      case False
      with r'(2) have eq: "r' = l'" by simp
      then have "length (?W l' r') \<le> 1"
        by (intro short_filtered seg_short) simp
      then have p: "?W l' r' = rev (?W l' r')" by (rule short_palindrome)
      have "length (?W (l' + 1) (r' - 1)) \<le> 1"
        using eq by (intro short_filtered seg_short) simp
      then have "?W (l' + 1) (r' - 1) = rev (?W (l' + 1) (r' - 1))" by (rule short_palindrome)
      with IH eq have "palindrome_loop isalnum lower s (l' + 1) (r' - 1) = Inr True" by simp
      with step eq have "palindrome_loop isalnum lower s left right = Inr True" by simp
      with p W show ?thesis by simp
    next
      case lt: True
      with l'(5) r'(3,5) have al: "isalnum (s ! nat l')" "isalnum (s ! nat r')" by simp_all
      have "seg s l' r' = s ! nat l' # seg s (l' + 1) r'"
        using lt by (intro seg_first) simp
      moreover have "seg s (l' + 1) r' = seg s (l' + 1) (r' - 1) @ [s ! nat r']"
        using lt by (intro seg_last) simp
      ultimately have "?W l' r' = lower (s ! nat l') # ?W (l' + 1) (r' - 1) @ [lower (s ! nat r')]"
        using al by simp
      then have p: "(?W l' r' = rev (?W l' r')) \<longleftrightarrow>
          (lower (s ! nat l') = lower (s ! nat r') \<and>
           ?W (l' + 1) (r' - 1) = rev (?W (l' + 1) (r' - 1)))"
        by (simp only: ends_palindrome)
      show ?thesis
      proof (cases "lower (s ! nat l') = lower (s ! nat r')")
        case True
        with step IH p W show ?thesis by simp
      next
        case False
        with step p W show ?thesis by simp
      qed
    qed
  qed
qed


lemma upt_0_Cons: "[0..<length (x # xs)] = 0 # map Suc [0..<length xs]"
  by (simp add: upt_conv_Cons map_Suc_upt del: upt_Suc)

lemma first_filter_Suc:
  "filter (\<lambda>i. (x # xs) ! i \<notin> seen \<union> set (take i (x # xs))) (map Suc L) =
   map Suc (filter (\<lambda>i. xs ! i \<notin> insert x seen \<union> set (take i xs)) L)"
  by (induction L) auto

lemma remove_duplicates_loop_spec:
  "remove_duplicates_loop s seen result =
     result @ map (\<lambda>i. s ! i) (filter (\<lambda>i. s ! i \<notin> seen \<union> set (take i s)) [0..<length s])"
proof (induction s arbitrary: seen result)
  case Nil
  then show ?case by simp
next
  case (Cons x xs)
  have tl: "map (\<lambda>i. (x # xs) ! i)
              (filter (\<lambda>i. (x # xs) ! i \<notin> seen \<union> set (take i (x # xs))) (map Suc [0..<length xs]))
            = map (\<lambda>i. xs ! i)
              (filter (\<lambda>i. xs ! i \<notin> insert x seen \<union> set (take i xs)) [0..<length xs])"
    by (simp only: first_filter_Suc map_map o_def nth_Cons_Suc)
  show ?case
  proof (cases "x \<in> seen")
    case True
    then have "insert x seen = seen" by auto
    with True Cons.IH [of seen result] tl show ?thesis
      by (simp only: upt_0_Cons) simp
  next
    case False
    with Cons.IH [of "insert x seen" "result @ [x]"] tl show ?thesis
      by (simp only: upt_0_Cons) simp
  qed
qed

lemma remove_duplicates_loop_distinct:
  "distinct result \<Longrightarrow> set result \<subseteq> seen \<Longrightarrow>
   distinct (remove_duplicates_loop s seen result)"
proof (induction s arbitrary: seen result)
  case Nil
  then show ?case by simp
next
  case (Cons x xs)
  show ?case
  proof (cases "x \<in> seen")
    case True
    with Cons.IH [OF Cons.prems] show ?thesis by simp
  next
    case False
    with Cons.prems have "distinct (result @ [x])" "set (result @ [x]) \<subseteq> insert x seen"
      by auto
    from Cons.IH [OF this] False show ?thesis by simp
  qed
qed

lemma remove_duplicates_loop_set:
  "set (remove_duplicates_loop s seen result) = set result \<union> (set s - seen)"
proof (induction s arbitrary: seen result)
  case Nil
  then show ?case by simp
next
  case (Cons x xs)
  show ?case
  proof (cases "x \<in> seen")
    case True
    with Cons.IH [of seen result] show ?thesis by auto
  next
    case False
    with Cons.IH [of "insert x seen" "result @ [x]"] show ?thesis by auto
  qed
qed


section \<open>The claims about the dynamic array\<close>

text \<open>
  C1. Whatever public calls are made on a freshly constructed array, raising or not, the
  object they leave has \<open>0 \<le> size \<le> capacity\<close>, a capacity of at least 2, and a capacity
  that is \<open>2 ^ k\<close> for some \<open>k \<ge> 1\<close>, that is, one reached from 2 by doubling.
\<close>

theorem size_capacity_invariant:
  "0 \<le> size_da (run ops init_da) \<and>
   size_da (run ops init_da) \<le> capacity (run ops init_da) \<and>
   2 \<le> capacity (run ops init_da) \<and>
   (\<exists>k. 1 \<le> k \<and> capacity (run ops init_da) = 2 ^ k)"
proof -
  have wf: "da_wf (run ops init_da)" by (rule run_wf [OF init_wf])
  have "capacity (init_da :: 'a DynamicArray) = 2 ^ 1" by (simp add: init_da_def)
  then have "\<exists>k. 1 \<le> k \<and> capacity (init_da :: 'a DynamicArray) = 2 ^ k" by blast
  from run_pow2 [OF init_wf this]
  have p: "\<exists>k. 1 \<le> k \<and> capacity (run ops init_da) = 2 ^ k" .
  have "capacity (init_da :: 'a DynamicArray) \<le> capacity (run ops init_da)"
    by (rule run_capacity_mono [OF init_wf])
  then have "2 \<le> capacity (run ops init_da)" by (simp add: init_da_def)
  with wf p show ?thesis by (simp add: da_wf_def)
qed

text \<open>
  C2. On a well-formed array (every array the public calls can produce is one), \<open>get\<close> and
  \<open>delete\<close> raise \<open>IndexError\<close> exactly when \<open>index < 0\<close> or \<open>index \<ge> size\<close>,
  \<open>insert\<close> exactly when \<open>index < 0\<close> or \<open>index > size\<close>, and a call that raises leaves
  size, capacity and every slot as they were.
\<close>

theorem out_of_range_rejection:
  assumes "da_wf s"
  shows "(get i s = Inl IndexError \<longleftrightarrow> i < 0 \<or> size_da s \<le> i) \<and>
         (fst (delete i s) = Inl IndexError \<longleftrightarrow> i < 0 \<or> size_da s \<le> i) \<and>
         (fst (insert_da i v s) = Inl IndexError \<longleftrightarrow> i < 0 \<or> size_da s < i) \<and>
         (fst (delete i s) = Inl IndexError \<longrightarrow> snd (delete i s) = s) \<and>
         (fst (insert_da i v s) = Inl IndexError \<longrightarrow> snd (insert_da i v s) = s) \<and>
         step (Get i) s = s"
proof -
  have g: "get i s = Inl IndexError \<longleftrightarrow> i < 0 \<or> size_da s \<le> i"
  proof (cases "0 \<le> i \<and> i < size_da s")
    case True
    then have "get i s = Inr (data s ! nat i)" using assms by (intro get_in_range) simp_all
    with True show ?thesis by simp
  next
    case False
    then show ?thesis by (auto simp: get_def)
  qed
  have d: "(fst (delete i s) = Inl IndexError \<longleftrightarrow> i < 0 \<or> size_da s \<le> i) \<and>
           (fst (delete i s) = Inl IndexError \<longrightarrow> snd (delete i s) = s)"
  proof (cases "0 \<le> i \<and> i < size_da s")
    case True
    with delete_wf [OF assms, of i] have "fst (delete i s) = Inr (data s ! nat i)" by auto
    with True show ?thesis by simp
  next
    case False
    then have "delete i s = (Inl IndexError, s)" by (auto simp: delete_def)
    with False show ?thesis by auto
  qed
  have n: "(fst (insert_da i v s) = Inl IndexError \<longleftrightarrow> i < 0 \<or> size_da s < i) \<and>
           (fst (insert_da i v s) = Inl IndexError \<longrightarrow> snd (insert_da i v s) = s)"
  proof (cases "0 \<le> i \<and> i \<le> size_da s")
    case True
    with insert_wf [OF assms, of i v] have "fst (insert_da i v s) = Inr ()" by auto
    with True show ?thesis by simp
  next
    case False
    then have "insert_da i v s = (Inl IndexError, s)" by (auto simp: insert_da_def)
    with False show ?thesis by auto
  qed
  from g d n show ?thesis by simp
qed

theorem out_of_range_rejection_witness:
  "da_wf \<lparr>capacity = 4, size_da = 3, data = [Some (10::int), Some 20, Some 30, None]\<rparr> \<and>
   get 3 \<lparr>capacity = 4, size_da = 3, data = [Some (10::int), Some 20, Some 30, None]\<rparr>
     = Inl IndexError \<and>
   get 2 \<lparr>capacity = 4, size_da = 3, data = [Some (10::int), Some 20, Some 30, None]\<rparr>
     \<noteq> Inl IndexError \<and>
   delete 3 \<lparr>capacity = 4, size_da = 3, data = [Some (10::int), Some 20, Some 30, None]\<rparr>
     = (Inl IndexError,
        \<lparr>capacity = 4, size_da = 3, data = [Some (10::int), Some 20, Some 30, None]\<rparr>) \<and>
   insert_da 4 (Some 99)
       \<lparr>capacity = 4, size_da = 3, data = [Some (10::int), Some 20, Some 30, None]\<rparr>
     = (Inl IndexError,
        \<lparr>capacity = 4, size_da = 3, data = [Some (10::int), Some 20, Some 30, None]\<rparr>) \<and>
   fst (insert_da 3 (Some 99)
       \<lparr>capacity = 4, size_da = 3, data = [Some (10::int), Some 20, Some 30, None]\<rparr>)
     \<noteq> Inl IndexError"
proof -
  let ?s = "\<lparr>capacity = 4, size_da = 3, data = [Some (10::int), Some 20, Some 30, None]\<rparr>"
  have h: "da_wf ?s" by (simp add: da_wf_def)
  show ?thesis
    using h out_of_range_rejection [OF h, of 3 "Some 99"]
      out_of_range_rejection [OF h, of 2 "Some 99"]
      out_of_range_rejection [OF h, of 4 "Some 99"]
    by (simp add: prod_eq_iff)
qed

text \<open>
  C3. Appending \<open>n\<close> elements to a freshly constructed array gives \<open>size = n\<close> and a
  capacity that is the smallest power of two at or above \<open>max(2, n)\<close>.
\<close>

theorem append_n:
  "size_da (run (map Append xs) init_da) = int (length xs) \<and>
   (\<exists>k. capacity (run (map Append xs) init_da) = 2 ^ k \<and>
        max 2 (int (length xs)) \<le> 2 ^ k \<and>
        (\<forall>j. max 2 (int (length xs)) \<le> 2 ^ j \<longrightarrow> (2::int) ^ k \<le> 2 ^ j))"
proof -
  let ?s = "run (map Append xs) init_da"
  let ?n = "int (length xs)"
  from append_all_shape [of xs] obtain k :: nat where k: "1 \<le> k" "size_da ?s = ?n"
    "capacity ?s = 2 ^ k" "?n \<le> 2 ^ k" "k = 1 \<or> 2 ^ (k - 1) < ?n" by blast
  have two: "(2::int) \<le> 2 ^ k" using k(1) self_le_power [of "2::int" k] by simp
  have "\<forall>j. max 2 ?n \<le> 2 ^ j \<longrightarrow> (2::int) ^ k \<le> 2 ^ j"
  proof (intro allI impI)
    fix j :: nat assume j: "max 2 ?n \<le> 2 ^ j"
    have "k \<le> j"
    proof (cases "k = 1")
      case True
      from j have "(2::int) ^ 1 \<le> 2 ^ j" by simp
      then have "1 \<le> j" by (simp only: power_increasing_iff) 
      with True show ?thesis by simp
    next
      case False
      with k(5) j have "(2::int) ^ (k - 1) < 2 ^ j" by linarith
      then have "k - 1 < j" by simp
      then show ?thesis by simp
    qed
    then show "(2::int) ^ k \<le> 2 ^ j" by simp
  qed
  with k two show ?thesis by (intro conjI exI [of _ k]) simp_all
qed

theorem append_n_witness:
  "size_da (run (map Append [Some (10::int), Some 20, Some 30]) init_da) = 3 \<and>
   capacity (run (map Append [Some (10::int), Some 20, Some 30]) init_da) = 4"
proof -
  let ?s = "run (map Append [Some (10::int), Some 20, Some 30]) init_da"
  from append_n [of "[Some (10::int), Some 20, Some 30]"] obtain k :: nat where
    k: "size_da ?s = 3" "capacity ?s = 2 ^ k" "(3::int) \<le> 2 ^ k"
       "\<forall>j. (3::int) \<le> 2 ^ j \<longrightarrow> (2::int) ^ k \<le> 2 ^ j"
    by auto
  from k(4) have "(3::int) \<le> 2 ^ 2 \<longrightarrow> (2::int) ^ k \<le> 2 ^ 2" by blast
  then have "(2::int) ^ k \<le> 2 ^ 2" by simp
  then have "k \<le> 2" by (simp only: power_increasing_iff) 
  moreover have "k \<noteq> 0"
  proof
    assume "k = 0"
    with k(3) show False by simp
  qed
  moreover have "k \<noteq> 1"
  proof
    assume "k = 1"
    with k(3) show False by simp
  qed
  ultimately have "k = 2" by simp
  with k(1,2) show ?thesis by simp
qed

text \<open>
  C4. On a well-formed array, for \<open>0 \<le> i \<le> size\<close>: \<open>insert(i, v)\<close> does not raise, the size
  grows by one, \<open>get(i)\<close> then returns \<open>v\<close>, what was at a position \<open>j < i\<close> is still there,
  and what was at a position \<open>j \<ge> i\<close> is at \<open>j + 1\<close>.
\<close>

theorem insert_get_roundtrip:
  assumes "da_wf s" "0 \<le> i" "i \<le> size_da s"
  shows "fst (insert_da i v s) = Inr () \<and>
         size_da (snd (insert_da i v s)) = size_da s + 1 \<and>
         get i (snd (insert_da i v s)) = Inr v \<and>
         (\<forall>j. 0 \<le> j \<and> j < i \<longrightarrow> get j (snd (insert_da i v s)) = get j s) \<and>
         (\<forall>j. i \<le> j \<and> j < size_da s \<longrightarrow> get (j + 1) (snd (insert_da i v s)) = get j s)"
proof -
  from insert_slots [OF assms, of v] obtain s' where
    s': "insert_da i v s = (Inr (), s')" "da_wf s'" "size_da s' = size_da s + 1"
        "\<forall>j. int j \<le> size_da s \<longrightarrow> data s' ! j =
              (if int j = i then v
               else if i < int j then data s ! (j - 1)
               else data s ! j)"
    by blast
  have slot: "\<And>j. 0 \<le> j \<Longrightarrow> j \<le> size_da s \<Longrightarrow> get j s' = Inr (data s' ! nat j)"
    using s'(2,3) by (intro get_in_range) simp_all
  have "get i s' = Inr v"
    using slot [of i] s'(4) assms by simp
  moreover have "\<forall>j. 0 \<le> j \<and> j < i \<longrightarrow> get j s' = get j s"
  proof (intro allI impI)
    fix j assume j: "0 \<le> j \<and> j < i"
    then have "data s' ! nat j = data s ! nat j" using s'(4) assms by simp
    moreover have "get j s' = Inr (data s' ! nat j)" using j assms by (intro slot) simp_all
    moreover have "get j s = Inr (data s ! nat j)" using j assms by (intro get_in_range) simp_all
    ultimately show "get j s' = get j s" by simp
  qed
  moreover have "\<forall>j. i \<le> j \<and> j < size_da s \<longrightarrow> get (j + 1) s' = get j s"
  proof (intro allI impI)
    fix j assume j: "i \<le> j \<and> j < size_da s"
    then have "int (nat (j + 1)) \<le> size_da s" "int (nat (j + 1)) \<noteq> i" "i < int (nat (j + 1))"
      "nat (j + 1) - 1 = nat j"
      using assms by simp_all
    then have "data s' ! nat (j + 1) = data s ! nat j" using s'(4) by (metis (full_types))
    moreover have "get (j + 1) s' = Inr (data s' ! nat (j + 1))"
      using j assms by (intro slot) simp_all
    moreover have "get j s = Inr (data s ! nat j)" using j assms by (intro get_in_range) simp_all
    ultimately show "get (j + 1) s' = get j s" by simp
  qed
  ultimately show ?thesis using s'(1,3) by simp
qed

theorem insert_get_roundtrip_witness:
  "da_wf \<lparr>capacity = 4, size_da = 3, data = [Some (10::int), Some 20, Some 30, None]\<rparr> \<and>
   (0::int) \<le> 1 \<and>
   1 \<le> size_da \<lparr>capacity = 4, size_da = 3, data = [Some (10::int), Some 20, Some 30, None]\<rparr> \<and>
   fst (insert_da 1 (Some 15)
       \<lparr>capacity = 4, size_da = 3, data = [Some (10::int), Some 20, Some 30, None]\<rparr>) = Inr () \<and>
   size_da (snd (insert_da 1 (Some 15)
       \<lparr>capacity = 4, size_da = 3, data = [Some (10::int), Some 20, Some 30, None]\<rparr>)) = 4 \<and>
   get 1 (snd (insert_da 1 (Some 15)
       \<lparr>capacity = 4, size_da = 3, data = [Some (10::int), Some 20, Some 30, None]\<rparr>))
     = Inr (Some 15) \<and>
   get 0 (snd (insert_da 1 (Some 15)
       \<lparr>capacity = 4, size_da = 3, data = [Some (10::int), Some 20, Some 30, None]\<rparr>))
     = Inr (Some 10) \<and>
   get 2 (snd (insert_da 1 (Some 15)
       \<lparr>capacity = 4, size_da = 3, data = [Some (10::int), Some 20, Some 30, None]\<rparr>))
     = Inr (Some 20)"
proof -
  let ?s = "\<lparr>capacity = 4, size_da = 3, data = [Some (10::int), Some 20, Some 30, None]\<rparr>"
  have h: "da_wf ?s" "(0::int) \<le> 1" "1 \<le> size_da ?s" by (simp_all add: da_wf_def)
  note t = insert_get_roundtrip [OF h, of "Some 15"]
  from t have lo: "\<And>j. 0 \<le> j \<Longrightarrow> j < 1 \<Longrightarrow>
      get j (snd (insert_da 1 (Some 15) ?s)) = get j ?s"
    and hi: "\<And>j. 1 \<le> j \<Longrightarrow> j < 3 \<Longrightarrow>
      get (j + 1) (snd (insert_da 1 (Some 15) ?s)) = get j ?s"
    by simp_all
  from lo [of 0] have "get 0 (snd (insert_da 1 (Some 15) ?s)) = get 0 ?s" by simp
  moreover from hi [of 1] have "get 2 (snd (insert_da 1 (Some 15) ?s)) = get 1 ?s" by simp
  moreover have "get 0 ?s = Inr (Some 10)" "get 1 ?s = Inr (Some 20)"
    by (simp_all add: get_def getitem_def)
  ultimately show ?thesis using h t by simp
qed

text \<open>
  C5. On a well-formed array, for \<open>0 \<le> i < size\<close>: \<open>delete(i)\<close> returns the element that
  \<open>get(i)\<close> read, and inserting it back at \<open>i\<close> restores the logical sequence and the
  size; in fact it restores the whole object.
\<close>

theorem delete_insert_inverse:
  assumes "da_wf s" "0 \<le> i" "i < size_da s"
  shows "\<exists>x s1 s2. delete i s = (Inr x, s1) \<and> get i s = Inr x \<and>
           insert_da i x s1 = (Inr (), s2) \<and>
           live s2 = live s \<and> size_da s2 = size_da s \<and> s2 = s"
proof -
  let ?x = "data s ! nat i"
  from delete_wf [OF assms] obtain d' where
    d': "delete i s = (Inr ?x, s\<lparr>data := d', size_da := size_da s - 1\<rparr>)"
        "length d' = length (data s)"
        "\<forall>j<length d'. d' ! j =
              (if int j = size_da s - 1 then None
               else if i \<le> int j \<and> int j \<le> size_da s - 2 then data s ! (j + 1)
               else data s ! j)"
    by blast
  let ?s1 = "s\<lparr>data := d', size_da := size_da s - 1\<rparr>"
  from assms have wf: "size_da s \<le> capacity s" "int (length (data s)) = capacity s"
    by (simp_all add: da_wf_def)
  have wf1: "da_wf ?s1" using assms d'(2) by (simp add: da_wf_def)
  have nofull: "resize_if_full ?s1 = (Inr (), ?s1)"
    using wf by (simp add: resize_if_full_def)
  have "0 \<le> i" "i \<le> size_da ?s1" using assms by simp_all
  from insert_wf [OF wf1 this, of ?x] nofull obtain d2 where
    d2: "insert_da i ?x ?s1 = (Inr (), ?s1\<lparr>data := d2, size_da := size_da ?s1 + 1\<rparr>)"
        "length d2 = length d'"
        "\<forall>j<length d2. d2 ! j =
              (if int j = i then ?x
               else if i < int j \<and> int j \<le> size_da s - 1 then d' ! (j - 1)
               else d' ! j)"
    by auto
  have "d2 = data s"
  proof (rule nth_equalityI)
    show "length d2 = length (data s)" using d2(2) d'(2) by simp
  next
    fix j assume j: "j < length d2"
    then have jd: "j < length d'" "j - 1 < length d'" using d2(2) by simp_all
    from d2(3) j have e2: "d2 ! j =
              (if int j = i then ?x
               else if i < int j \<and> int j \<le> size_da s - 1 then d' ! (j - 1)
               else d' ! j)" by simp
    show "d2 ! j = data s ! j"
    proof (cases "int j = i")
      case True
      then have "j = nat i" by linarith
      with e2 True show ?thesis by simp
    next
      case ne: False
      show ?thesis
      proof (cases "i < int j \<and> int j \<le> size_da s - 1")
        case True
        then have "int (j - 1) \<noteq> size_da s - 1" "i \<le> int (j - 1)" "int (j - 1) \<le> size_da s - 2"
          "j - 1 + 1 = j" using assms by linarith+
        with d'(3) jd(2) have "d' ! (j - 1) = data s ! j" by (metis (full_types))
        with e2 ne True show ?thesis by simp
      next
        case False
        with ne assms have "int j \<noteq> size_da s - 1" "\<not> (i \<le> int j \<and> int j \<le> size_da s - 2)"
          by linarith+
        with d'(3) jd(1) have "d' ! j = data s ! j" by auto
        with e2 ne False show ?thesis by auto
      qed
    qed
  qed
  with d2(1) have "insert_da i ?x ?s1 = (Inr (), s)" by simp
  moreover have "get i s = Inr ?x" using assms by (intro get_in_range)
  ultimately show ?thesis using d'(1) by simp
qed

theorem delete_insert_inverse_witness:
  "da_wf \<lparr>capacity = 4, size_da = 3, data = [Some (10::int), Some 20, Some 30, None]\<rparr> \<and>
   (0::int) \<le> 1 \<and>
   1 < size_da \<lparr>capacity = 4, size_da = 3, data = [Some (10::int), Some 20, Some 30, None]\<rparr> \<and>
   fst (delete 1 \<lparr>capacity = 4, size_da = 3, data = [Some (10::int), Some 20, Some 30, None]\<rparr>)
     = Inr (Some 20) \<and>
   insert_da 1 (Some 20)
     (snd (delete 1
        \<lparr>capacity = 4, size_da = 3, data = [Some (10::int), Some 20, Some 30, None]\<rparr>))
     = (Inr (), \<lparr>capacity = 4, size_da = 3, data = [Some (10::int), Some 20, Some 30, None]\<rparr>)"
proof -
  let ?s = "\<lparr>capacity = 4, size_da = 3, data = [Some (10::int), Some 20, Some 30, None]\<rparr>"
  have h: "da_wf ?s" "(0::int) \<le> 1" "1 < size_da ?s" by (simp_all add: da_wf_def)
  from delete_insert_inverse [OF h] obtain x s1 where
    t: "delete 1 ?s = (Inr x, s1)" "get 1 ?s = Inr x" "insert_da 1 x s1 = (Inr (), ?s)"
    by blast
  have "get 1 ?s = Inr (Some 20)" by (simp add: get_def getitem_def)
  with t(2) have "x = Some 20" by simp
  with t h show ?thesis by simp
qed

text \<open>
  C6. On a well-formed array, \<open>_resize\<close> does not raise, doubles the capacity, leaves the
  size, allocates a buffer of the new capacity whose slots \<open>[0, size)\<close> are the old logical
  sequence and whose other slots are \<open>None\<close>; and no sequence of public calls ever lowers
  the capacity.
\<close>

theorem growth_preserves_sequence:
  assumes "da_wf s"
  shows "fst (resize s) = Inr () \<and>
         capacity (snd (resize s)) = capacity s * 2 \<and>
         size_da (snd (resize s)) = size_da s \<and>
         int (length (data (snd (resize s)))) = capacity s * 2 \<and>
         live (snd (resize s)) = live s \<and>
         (\<forall>j. size_da s \<le> j \<and> j < capacity s * 2 \<longrightarrow>
              getitem (data (snd (resize s))) j = Inr None) \<and>
         (\<forall>ops. capacity s \<le> capacity (run ops s))"
proof -
  let ?s' = "s\<lparr>capacity := capacity s * 2,
            data := live s @ py_repeat None (capacity s * 2 - size_da s)\<rparr>"
  from assms have wf: "0 \<le> size_da s" "size_da s \<le> capacity s" "1 \<le> capacity s"
    "int (length (data s)) = capacity s" by (simp_all add: da_wf_def)
  have r: "resize s = (Inr (), ?s')" by (rule resize_wf [OF assms])
  have len: "int (length (data ?s')) = capacity s * 2"
    using wf by (simp add: live_def py_repeat_def)
  have lv: "live ?s' = live s" using wf by (simp add: live_def)
  have "\<forall>j. size_da s \<le> j \<and> j < capacity s * 2 \<longrightarrow> getitem (data ?s') j = Inr None"
  proof (intro allI impI)
    fix j assume j: "size_da s \<le> j \<and> j < capacity s * 2"
    then have "getitem (data ?s') j = Inr (data ?s' ! nat j)"
      using wf len by (intro getitem_in_range) linarith+
    moreover have "nat j - nat (size_da s) < nat (capacity s * 2 - size_da s)"
      using j wf by linarith
    then have "data ?s' ! nat j = None"
      using j wf by (simp add: live_def py_repeat_def nth_append)
    ultimately show "getitem (data ?s') j = Inr None" by simp
  qed
  moreover have "\<forall>ops. capacity s \<le> capacity (run ops s)"
    using run_capacity_mono [OF assms] by blast
  ultimately show ?thesis using r len lv by simp
qed

theorem growth_preserves_sequence_witness:
  "da_wf \<lparr>capacity = 2, size_da = 2, data = [Some (10::int), Some 20]\<rparr> \<and>
   fst (resize \<lparr>capacity = 2, size_da = 2, data = [Some (10::int), Some 20]\<rparr>) = Inr () \<and>
   capacity (snd (resize \<lparr>capacity = 2, size_da = 2, data = [Some (10::int), Some 20]\<rparr>)) = 4 \<and>
   size_da (snd (resize \<lparr>capacity = 2, size_da = 2, data = [Some (10::int), Some 20]\<rparr>)) = 2 \<and>
   live (snd (resize \<lparr>capacity = 2, size_da = 2, data = [Some (10::int), Some 20]\<rparr>))
     = [Some 10, Some 20] \<and>
   getitem (data (snd (resize \<lparr>capacity = 2, size_da = 2, data = [Some (10::int), Some 20]\<rparr>))) 3
     = Inr None \<and>
   2 \<le> capacity (run [Append (Some 30), Delete 0]
          \<lparr>capacity = 2, size_da = 2, data = [Some (10::int), Some 20]\<rparr>)"
proof -
  let ?s = "\<lparr>capacity = 2, size_da = 2, data = [Some (10::int), Some 20]\<rparr>"
  have h: "da_wf ?s" by (simp add: da_wf_def)
  note t = growth_preserves_sequence [OF h]
  from t have "getitem (data (snd (resize ?s))) 3 = Inr None" by simp
  moreover from t have "capacity ?s \<le> capacity (run [Append (Some 30), Delete 0] ?s)" by blast
  moreover have "live ?s = [Some 10, Some 20]" by (simp add: live_def)
  ultimately show ?thesis using h t by simp
qed

text \<open>
  C7. On a well-formed, non-empty array, \<open>delete(size - 1)\<close> does not raise: its shift loop
  runs over the empty range, it returns the last element, decrements the size, writes
  \<open>None\<close> into the slot it vacates and leaves every other slot.
\<close>

theorem delete_last:
  assumes "da_wf s" "1 \<le> size_da s"
  shows "delete (size_da s - 1) s =
           (Inr (data s ! nat (size_da s - 1)),
            s\<lparr>data := (data s)[nat (size_da s - 1) := None], size_da := size_da s - 1\<rparr>) \<and>
         get (size_da s - 1) s = Inr (data s ! nat (size_da s - 1)) \<and>
         shift_left (py_range (size_da s - 1) (size_da s - 1)) (data s) = (Inr (), data s) \<and>
         getitem (data (snd (delete (size_da s - 1) s))) (size_da s - 1) = Inr None \<and>
         (\<forall>j. 0 \<le> j \<and> j < size_da s - 1 \<longrightarrow>
              get j (snd (delete (size_da s - 1) s)) = get j s)"
proof -
  from assms have wf: "size_da s \<le> capacity s" "int (length (data s)) = capacity s"
    by (simp_all add: da_wf_def)
  let ?s' = "s\<lparr>data := (data s)[nat (size_da s - 1) := None], size_da := size_da s - 1\<rparr>"
  have noshift: "shift_left (py_range (size_da s - 1) (size_da s - 1)) (data s) = (Inr (), data s)"
    by (simp add: py_range_def)
  have d: "delete (size_da s - 1) s = (Inr (data s ! nat (size_da s - 1)), ?s')"
    using assms wf noshift by (simp add: delete_def getitem_in_range setitem_in_range)
  have g: "get (size_da s - 1) s = Inr (data s ! nat (size_da s - 1))"
    using assms by (intro get_in_range) simp_all
  have c: "getitem (data ?s') (size_da s - 1) = Inr None"
    using assms wf by (simp add: getitem_in_range)
  have "\<forall>j. 0 \<le> j \<and> j < size_da s - 1 \<longrightarrow> get j ?s' = get j s"
    using wf by (auto simp: get_def getitem_in_range)
  with d g c noshift show ?thesis by simp
qed

theorem delete_last_witness:
  "da_wf \<lparr>capacity = 4, size_da = 3, data = [Some (10::int), Some 20, Some 30, None]\<rparr> \<and>
   1 \<le> size_da \<lparr>capacity = 4, size_da = 3, data = [Some (10::int), Some 20, Some 30, None]\<rparr> \<and>
   delete 2 \<lparr>capacity = 4, size_da = 3, data = [Some (10::int), Some 20, Some 30, None]\<rparr>
     = (Inr (Some 30), \<lparr>capacity = 4, size_da = 2, data = [Some 10, Some 20, None, None]\<rparr>)"
proof -
  let ?s = "\<lparr>capacity = 4, size_da = 3, data = [Some (10::int), Some 20, Some 30, None]\<rparr>"
  have h: "da_wf ?s" "1 \<le> size_da ?s" by (simp_all add: da_wf_def)
  have n: "nat 2 = Suc (Suc 0)" by simp
  show ?thesis using h delete_last [OF h] by (simp add: n)
qed

text \<open>
  C10. On every array the public calls can produce (and on any object whose size is not
  negative), \<open>insert(size, v)\<close> has the same outcome and leaves the same object as
  \<open>append(v)\<close>.
\<close>

theorem insert_at_end_is_append:
  "(0 \<le> size_da s \<longrightarrow> insert_da (size_da s) v s = append_da v s) \<and>
   insert_da (size_da (run ops init_da)) v (run ops init_da) = append_da v (run ops init_da)"
proof -
  have "da_wf (run ops init_da)" by (rule run_wf [OF init_wf])
  then have "0 \<le> size_da (run ops init_da)" by (simp add: da_wf_def)
  then show ?thesis using insert_at_size by blast
qed

theorem insert_at_end_is_append_witness:
  "0 \<le> size_da \<lparr>capacity = 4, size_da = 3, data = [Some (10::int), Some 20, Some 30, None]\<rparr> \<and>
   insert_da 3 (Some 40)
       \<lparr>capacity = 4, size_da = 3, data = [Some (10::int), Some 20, Some 30, None]\<rparr>
     = append_da (Some 40)
       \<lparr>capacity = 4, size_da = 3, data = [Some (10::int), Some 20, Some 30, None]\<rparr>"
  using insert_at_end_is_append
    [of "\<lparr>capacity = 4, size_da = 3, data = [Some (10::int), Some 20, Some 30, None]\<rparr>"
        "Some 40" "[]"]
  by simp

section \<open>The claims about the string utilities\<close>

text \<open>
  C8. Whatever \<open>isalnum\<close> and \<open>lower\<close> are, \<open>is_palindrome(s)\<close> returns (it never raises),
  and it returns \<open>True\<close> exactly when \<open>s\<close> is empty, has length 1, or the sequence of its
  alphanumeric characters, each lowered, equals its own reverse. On the two strings of the
  specification it returns \<open>True\<close> and \<open>False\<close>.
\<close>

theorem is_palindrome_correct:
  "(\<exists>b. is_palindrome isalnum lower s = Inr b) \<and>
   (is_palindrome isalnum lower s = Inr True \<longleftrightarrow>
      s = [] \<or> length s = 1 \<or>
      map lower (filter isalnum s) = rev (map lower (filter isalnum s))) \<and>
   is_palindrome isalnum_ascii lower_ascii ''A man, a plan, a canal: Panama'' = Inr True \<and>
   is_palindrome isalnum_ascii lower_ascii ''race a car'' = Inr False"
proof -
  have r: "is_palindrome isalnum lower s =
      Inr (map lower (filter isalnum s) = rev (map lower (filter isalnum s)))"
    using palindrome_loop_spec [of 0 "int (length s) - 1" s isalnum lower]
    by (simp add: is_palindrome_def seg_whole)
  have short: "s = [] \<or> length s = 1 \<Longrightarrow>
      map lower (filter isalnum s) = rev (map lower (filter isalnum s))"
  proof -
    assume "s = [] \<or> length s = 1"
    then have "length s \<le> 1" by auto
    then have "length (map lower (filter isalnum s)) \<le> 1" by (rule short_filtered)
    then show ?thesis by (rule short_palindrome)
  qed
  have a: "is_palindrome isalnum_ascii lower_ascii ''A man, a plan, a canal: Panama'' = Inr True"
    by code_simp
  have b: "is_palindrome isalnum_ascii lower_ascii ''race a car'' = Inr False"
    by code_simp
  from r short a b show ?thesis by auto
qed

text \<open>
  C9. \<open>remove_duplicates(s)\<close> is the sequence of the first occurrences of the characters of
  \<open>s\<close>, in the order of these occurrences: no character twice, and every character of
  \<open>s\<close>. On \<open>"abcabc"\<close> it is \<open>"abc"\<close>.
\<close>

theorem remove_duplicates_first_occurrences:
  "remove_duplicates s = first_occurrences s \<and>
   distinct (remove_duplicates s) \<and>
   set (remove_duplicates s) = set s \<and>
   remove_duplicates ''abcabc'' = ''abc''"
proof -
  have "remove_duplicates s = first_occurrences s"
    by (simp add: remove_duplicates_def first_occurrences_def remove_duplicates_loop_spec)
  moreover have "distinct (remove_duplicates s)"
    unfolding remove_duplicates_def by (rule remove_duplicates_loop_distinct) simp_all
  moreover have "set (remove_duplicates s) = set s"
    by (simp add: remove_duplicates_def remove_duplicates_loop_set)
  moreover have "remove_duplicates ''abcabc'' = ''abc''" by code_simp
  ultimately show ?thesis by blast
qed

end
